theory Spec2Isabelle
  imports Complex_Main "HOL-Library.Char_ord" "HOL-Library.List_Lexorder"
begin

section \<open>Exceptions of the Python source\<close>

text \<open>
  Every \<^verbatim>\<open>assert\<close>, every out-of-range index and every failing library call of
  \<^verbatim>\<open>get_durations.py\<close> is a value of type \<open>exn\<close>. An \<^verbatim>\<open>AssertionError\<close> carries
  the message expression of its \<^verbatim>\<open>assert\<close> statement.
\<close>

datatype assert_msg =
    NoMessage
  | Tokens string string
  | Totals rat rat
  | Line "string list"

datatype exn =
    AssertionError assert_msg
  | IndexError
  | ValueError
  | ZeroDivisionError

section \<open>\<^verbatim>\<open>match_up\<close>: aligning forced-alignment labels with transcript phones\<close>

definition merlin_silence_symbols :: "string list" where
  "merlin_silence_symbols = [''pau'', ''sil'', ''skip'']"

text \<open>\<^verbatim>\<open>s.startswith('<')\<close>\<close>

definition startswith_lt :: "string \<Rightarrow> bool" where
  "startswith_lt s = (case s of [] \<Rightarrow> False | c # _ \<Rightarrow> c = CHR ''<'')"

text \<open>
  The state of the first \<^verbatim>\<open>while\<close> loop: the cursors \<^verbatim>\<open>m\<close> and \<^verbatim>\<open>d\<close> and the
  list \<^verbatim>\<open>timings\<close>. (The list \<^verbatim>\<open>output\<close> of the source is never written or read.)
\<close>

type_synonym match_state = "nat \<times> nat \<times> int list"

text \<open>
  One pass through the body of the first loop (lines 70-82). It is run only under the loop
  guard, so \<^verbatim>\<open>merlin_label[m]\<close> and \<^verbatim>\<open>phoneme_label[d]\<close> are in range;
  \<^verbatim>\<open>merlin_timings[m]\<close> raises \<^verbatim>\<open>IndexError\<close> when the timings are shorter than
  the labels.
\<close>

definition match_body ::
  "string list \<Rightarrow> int list \<Rightarrow> string list \<Rightarrow> match_state \<Rightarrow> exn + match_state" where
  "match_body merlin_label merlin_timings phoneme_label s =
     (case s of (m, d, timings) \<Rightarrow>
        if merlin_label ! m \<in> set merlin_silence_symbols then
          if \<not> startswith_lt (phoneme_label ! d)
          then Inl (AssertionError (Tokens (phoneme_label ! d) (merlin_label ! m)))
          else if m < length merlin_timings
          then Inr (m + 1, d + 1, timings @ [merlin_timings ! m])
          else Inl IndexError
        else if startswith_lt (phoneme_label ! d)
        then Inr (m, d + 1, timings @ [0])
        else if m < length merlin_timings
        then Inr (m + 1, d + 1, timings @ [merlin_timings ! m])
        else Inl IndexError)"

lemma match_body_advances:
  "match_body L T P (m, d, ts) = Inr (m', d', ts') \<Longrightarrow> d' = Suc d"
  by (auto simp: match_body_def split: if_splits)

function match_loop ::
  "string list \<Rightarrow> int list \<Rightarrow> string list \<Rightarrow> match_state \<Rightarrow> exn + match_state" where
  "match_loop merlin_label merlin_timings phoneme_label (m, d, timings) =
     (if m < length merlin_label \<and> d < length phoneme_label then
        (case match_body merlin_label merlin_timings phoneme_label (m, d, timings) of
           Inl e \<Rightarrow> Inl e
         | Inr s' \<Rightarrow> match_loop merlin_label merlin_timings phoneme_label s')
      else Inr (m, d, timings))"
  by pat_completeness auto
termination
proof (relation "measure (\<lambda>(L, T, P, m, d, ts). length P - d)")
  show "wf (measure (\<lambda>(L, T, P, m, d, ts). length P - d))" by simp
next
  fix L T P m d ts s'
  assume g: "m < length L \<and> d < length P"
    and b: "match_body L T P (m, d, ts) = Inr s'"
  obtain m' d' ts' where s': "s' = (m', d', ts')" by (cases s') auto
  from b s' have "d' = Suc d" by (auto dest: match_body_advances)
  with g s' show "((L, T, P, s'), (L, T, P, m, d, ts))
      \<in> measure (\<lambda>(L, T, P, m, d, ts). length P - d)" by auto
qed

declare match_loop.simps [simp del]

text \<open>The second loop (lines 84-86): every remaining transcript position gets 0.\<close>

function pad_loop :: "string list \<Rightarrow> nat \<Rightarrow> int list \<Rightarrow> int list" where
  "pad_loop phoneme_label d timings =
     (if d < length phoneme_label
      then pad_loop phoneme_label (d + 1) (timings @ [0])
      else timings)"
  by pat_completeness auto
termination
  by (relation "measure (\<lambda>(P, d, ts). length P - d)") auto

declare pad_loop.simps [simp del]

definition match_up :: "string list \<times> int list \<Rightarrow> string list \<Rightarrow> exn + int list" where
  "match_up merlin_label_timings phoneme_label =
     (case merlin_label_timings of (merlin_label, merlin_timings) \<Rightarrow>
        (case match_loop merlin_label merlin_timings phoneme_label (0, 0, []) of
           Inl e \<Rightarrow> Inl e
         | Inr (m, d, timings) \<Rightarrow>
             if m \<noteq> length merlin_label then Inl (AssertionError NoMessage)
             else Inr (pad_loop phoneme_label d timings)))"

text \<open>
  The state after at most \<open>k\<close> passes through the first loop: the states the loop
  goes through on its way from a start state.
\<close>

fun match_after ::
  "nat \<Rightarrow> string list \<Rightarrow> int list \<Rightarrow> string list \<Rightarrow> match_state \<Rightarrow> exn + match_state" where
  "match_after 0 L T P s = Inr s"
| "match_after (Suc k) L T P s =
     (if fst s < length L \<and> fst (snd s) < length P then
        (case match_body L T P s of
           Inl e \<Rightarrow> Inl e
         | Inr s' \<Rightarrow> match_after k L T P s')
      else Inr s)"

subsection \<open>Properties of the loops\<close>

lemma match_after_stop:
  "\<not> (fst s < length L \<and> fst (snd s) < length P) \<Longrightarrow> match_after k L T P s = Inr s"
  by (cases k) auto

lemma match_after_loop:
  "match_after k L T P s = Inr s' \<Longrightarrow> match_loop L T P s = match_loop L T P s'"
proof (induction k arbitrary: s)
  case 0
  then show ?case by simp
next
  case (Suc k)
  obtain m d ts where s: "s = (m, d, ts)" by (cases s) auto
  show ?case
  proof (cases "m < length L \<and> d < length P")
    case True
    with Suc.prems s obtain s1 where b: "match_body L T P (m, d, ts) = Inr s1"
      and a: "match_after k L T P s1 = Inr s'"
      by (auto split: sum.splits)
    from True b have "match_loop L T P s = match_loop L T P s1"
      by (simp add: s match_loop.simps [of L T P m d ts])
    with Suc.IH [OF a] show ?thesis by simp
  next
    case False
    with Suc.prems s show ?thesis by simp
  qed
qed

lemma match_after_snoc:
  "match_after k L T P s = Inr s' \<Longrightarrow>
   match_after (Suc k) L T P s =
     (if fst s' < length L \<and> fst (snd s') < length P
      then match_body L T P s' else Inr s')"
proof (induction k arbitrary: s)
  case 0
  then show ?case by (auto split: sum.splits)
next
  case (Suc k)
  show ?case
  proof (cases "fst s < length L \<and> fst (snd s) < length P")
    case True
    with Suc.prems obtain s1 where b: "match_body L T P s = Inr s1"
      and a: "match_after k L T P s1 = Inr s'"
      by (auto split: sum.splits)
    have "match_after (Suc (Suc k)) L T P s = match_after (Suc k) L T P s1"
      using True b by simp
    with Suc.IH [OF a] show ?thesis by simp
  next
    case False
    with Suc.prems have "s' = s" by simp
    with False show ?thesis by (auto simp del: match_after.simps simp add: match_after_stop)
  qed
qed

lemma pad_loop_eq: "pad_loop P d ts = ts @ replicate (length P - d) 0"
proof (induction P d ts rule: pad_loop.induct)
  case (1 P d ts)
  show ?case
  proof (cases "d < length P")
    case True
    then have "length P - d = Suc (length P - (d + 1))" by simp
    then have "replicate (length P - d) (0::int) = 0 # replicate (length P - (d + 1)) 0"
      by simp
    with 1 True show ?thesis
      by (simp add: pad_loop.simps [of P d ts])
  next
    case False
    then show ?thesis by (simp add: pad_loop.simps [of P d ts])
  qed
qed

lemma match_loop_inv:
  "match_loop L T P (m, d, ts) = Inr (m', d', ts') \<Longrightarrow> length ts = d \<Longrightarrow> d \<le> length P
   \<Longrightarrow> length ts' = d' \<and> d' \<le> length P"
proof (induction L T P "(m, d, ts)" arbitrary: m d ts rule: match_loop.induct)
  case (1 L T P m d ts)
  show ?case
  proof (cases "m < length L \<and> d < length P")
    case True
    with "1.prems"(1) obtain m1 d1 ts1 where b: "match_body L T P (m, d, ts) = Inr (m1, d1, ts1)"
      and l: "match_loop L T P (m1, d1, ts1) = Inr (m', d', ts')"
      by (auto simp: match_loop.simps [of L T P m d ts] split: sum.splits)
    from b "1.prems"(2) True have "length ts1 = d1" "d1 \<le> length P"
      by (auto simp: match_body_def split: if_splits)
    with "1.hyps" [OF True b l] show ?thesis by simp
  next
    case False
    with "1.prems" show ?thesis by (simp add: match_loop.simps [of L T P m d ts])
  qed
qed


subsection \<open>Silence symbols against boundary markers\<close>

text \<open>
  Claim C3, as amended. The silence symbols of the source are \<^verbatim>\<open>'pau'\<close>, \<^verbatim>\<open>'sil'\<close>
  and \<^verbatim>\<open>'skip'\<close>. In every call of \<^verbatim>\<open>match_up\<close>, whenever the first loop stands at
  cursors \<open>m\<close>, \<open>d\<close> where the source token is one of these three symbols: if the
  target token does not start with \<^verbatim>\<open><\<close>, the call raises the assertion error that
  carries both tokens; if it does (and the source token has a duration), the next pass
  appends the source duration and advances both cursors.
\<close>

theorem silence_requires_boundary_marker:
  assumes "match_after k L T P (0, 0, []) = Inr (m, d, ts)"
    and "m < length L" and "d < length P"
    and "L ! m \<in> {''pau'', ''sil'', ''skip''}"
  shows "(\<not> startswith_lt (P ! d) \<longrightarrow>
            match_up (L, T) P = Inl (AssertionError (Tokens (P ! d) (L ! m)))) \<and>
         (startswith_lt (P ! d) \<and> m < length T \<longrightarrow>
            match_after (Suc k) L T P (0, 0, []) = Inr (m + 1, d + 1, ts @ [T ! m]))"
proof (intro conjI impI)
  assume nb: "\<not> startswith_lt (P ! d)"
  from assms(4) have sil: "L ! m \<in> set merlin_silence_symbols"
    by (simp add: merlin_silence_symbols_def)
  from sil nb have "match_body L T P (m, d, ts)
      = Inl (AssertionError (Tokens (P ! d) (L ! m)))"
    by (simp add: match_body_def)
  with assms(2,3) have "match_loop L T P (m, d, ts)
      = Inl (AssertionError (Tokens (P ! d) (L ! m)))"
    by (simp add: match_loop.simps [of L T P m d ts])
  with match_after_loop [OF assms(1)] show
    "match_up (L, T) P = Inl (AssertionError (Tokens (P ! d) (L ! m)))"
    by (simp add: match_up_def)
next
  assume b: "startswith_lt (P ! d) \<and> m < length T"
  from assms(4) have sil: "L ! m \<in> set merlin_silence_symbols"
    by (simp add: merlin_silence_symbols_def)
  from sil b have "match_body L T P (m, d, ts) = Inr (m + 1, d + 1, ts @ [T ! m])"
    by (simp add: match_body_def)
  with match_after_snoc [OF assms(1)] assms(2,3) show
    "match_after (Suc k) L T P (0, 0, []) = Inr (m + 1, d + 1, ts @ [T ! m])"
    by simp
qed

theorem silence_requires_boundary_marker_witness:
  "match_up ([''k'', ''sil''], [20, 10]) [''k'', ''a''] = Inl (AssertionError (Tokens ''a'' ''sil''))
   \<and> match_after 2 [''k'', ''sil''] [20, 10] [''k'', ''<e>''] (0, 0, []) = Inr (2, 2, [20, 10])"
proof -
  have a: "match_after 1 [''k'', ''sil''] [20, 10] [''k'', ''a''] (0, 0, []) = Inr (1, 1, [20])"
    by code_simp
  have b: "match_after 1 [''k'', ''sil''] [20, 10] [''k'', ''<e>''] (0, 0, []) = Inr (1, 1, [20])"
    by code_simp
  have s: "startswith_lt ''<e>''" "\<not> startswith_lt ''a''"
    by (simp_all add: startswith_lt_def)
  from silence_requires_boundary_marker [of 1 "[''k'', ''sil'']" "[20, 10]" "[''k'', ''a'']" 1 1 "[20]"] a s
  have "match_up ([''k'', ''sil''], [20, 10]) [''k'', ''a'']
      = Inl (AssertionError (Tokens ''a'' ''sil''))"
    by simp
  moreover
  from silence_requires_boundary_marker [of 1 "[''k'', ''sil'']" "[20, 10]" "[''k'', ''<e>'']" 1 1 "[20]"] b s
  have "match_after 2 [''k'', ''sil''] [20, 10] [''k'', ''<e>''] (0, 0, []) = Inr (2, 2, [20, 10])"
    by (simp add: numeral_2_eq_2)
  ultimately show ?thesis by simp
qed

text \<open>
  Claim C3 as stated names \<^verbatim>\<open>"pause"\<close> as a silence symbol. The source does not treat
  it as one: against a target token that is no boundary marker the call succeeds and
  pairs the two tokens.
\<close>

theorem spec_silence_symbol_counterexample:
  "''pause'' \<notin> set merlin_silence_symbols \<and> \<not> startswith_lt ''a'' \<and>
   match_up ([''pause''], [10]) [''a''] = Inr [10]"
  by code_simp

subsection \<open>Length of the result\<close>

text \<open>
  Claim C4. Whenever \<^verbatim>\<open>match_up\<close> returns a list, the list is as long as the
  target token sequence; the first loop has ended with the source cursor at the end of
  the source sequence and the target cursor at some \<open>d\<close>, the result up to \<open>d\<close> is
  what the first loop collected, and every target position from \<open>d\<close> on has duration 0.
\<close>

theorem match_up_length:
  assumes "match_up (L, T) P = Inr out"
  shows "length out = length P \<and>
    (\<exists>d ts. match_loop L T P (0, 0, []) = Inr (length L, d, ts) \<and> d \<le> length P \<and>
       take d out = ts \<and> (\<forall>j. d \<le> j \<and> j < length P \<longrightarrow> out ! j = 0))"
proof -
  from assms obtain d ts where l: "match_loop L T P (0, 0, []) = Inr (length L, d, ts)"
    and out: "out = pad_loop P d ts"
    by (auto simp: match_up_def split: sum.splits if_splits)
  from match_loop_inv [OF l] have inv: "length ts = d" "d \<le> length P" by simp_all
  from out have o: "out = ts @ replicate (length P - d) 0" by (simp add: pad_loop_eq)
  from o inv have "length out = length P" by simp
  moreover from o inv have "take d out = ts" by simp
  moreover from o inv have "\<forall>j. d \<le> j \<and> j < length P \<longrightarrow> out ! j = 0"
    by (auto simp: nth_append)
  ultimately show ?thesis using l inv by blast
qed

theorem match_up_length_witness:
  "length [10, 20, 0, 0 :: int] = length [''<s>'', ''k'', ''.'', ''<e>''] \<and>
    (\<exists>d ts. match_loop [''sil'', ''k''] [10, 20] [''<s>'', ''k'', ''.'', ''<e>''] (0, 0, [])
         = Inr (length [''sil'', ''k''], d, ts) \<and> d \<le> length [''<s>'', ''k'', ''.'', ''<e>''] \<and>
       take d [10, 20, 0, 0] = ts \<and>
       (\<forall>j. d \<le> j \<and> j < length [''<s>'', ''k'', ''.'', ''<e>''] \<longrightarrow> [10, 20, 0, 0 :: int] ! j = 0))"
proof -
  have "match_up ([''sil'', ''k''], [10, 20]) [''<s>'', ''k'', ''.'', ''<e>''] = Inr [10, 20, 0, 0]"
    by code_simp
  from match_up_length [OF this] show ?thesis .
qed

subsection \<open>Phones are paired without being compared\<close>



section \<open>\<^verbatim>\<open>durations_to_attention_matrix\<close>: the hard attention guide\<close>

text \<open>
  A two-dimensional array is the list of its rows. The entries are \<^verbatim>\<open>float32\<close> in the
  source and hold only sums of the values 0.0 and 1.0, which floating point computes
  exactly; they are real numbers here. The durations are an integer array.
\<close>

type_synonym matrix = "real list list"

text \<open>\<^verbatim>\<open>np.zeros((nframes, nphones))\<close>, for a row count that is not negative.\<close>

definition zeros :: "nat \<Rightarrow> nat \<Rightarrow> matrix" where
  "zeros nframes nphones = replicate nframes (replicate nphones 0)"

text \<open>
  A bound of a Python slice over an axis of length \<open>n\<close>: a negative bound counts from
  the end, and the result is clipped to \<open>0 \<dots> n\<close>.
\<close>

definition slice_index :: "nat \<Rightarrow> int \<Rightarrow> nat" where
  "slice_index n k =
     (if k < 0 then (if k + int n < 0 then 0 else nat (k + int n))
      else if int n \<le> k then n else nat k)"

text \<open>\<^verbatim>\<open>A[start:end, i] = 1.0\<close>\<close>

definition assign_col :: "matrix \<Rightarrow> int \<Rightarrow> int \<Rightarrow> nat \<Rightarrow> matrix" where
  "assign_col A start end i =
     (let lo = slice_index (length A) start; hi = slice_index (length A) end
      in map (\<lambda>r. if lo \<le> r \<and> r < hi then (A ! r)[i := 1] else A ! r) [0..<length A])"

text \<open>
  The loop \<^verbatim>\<open>for (i, dur) in enumerate(durations)\<close> (lines 139-142), over the durations
  still to come, with the index \<open>i\<close> of the next one and the running \<^verbatim>\<open>start\<close>.
\<close>

fun fill_loop :: "int list \<Rightarrow> nat \<Rightarrow> int \<Rightarrow> matrix \<Rightarrow> matrix" where
  "fill_loop [] i start A = A"
| "fill_loop (dur # rest) i start A =
     (let end = start + dur
      in fill_loop rest (i + 1) end (assign_col A start end i))"

text \<open>\<^verbatim>\<open>A.sum(axis=1)\<close> and \<^verbatim>\<open>A.sum(axis=0)\<close> of an array with \<open>nphones\<close> columns.\<close>

definition sum_axis1 :: "matrix \<Rightarrow> real list" where
  "sum_axis1 A = map sum_list A"

definition sum_axis0 :: "nat \<Rightarrow> matrix \<Rightarrow> real list" where
  "sum_axis0 nphones A = map (\<lambda>i. sum_list (map (\<lambda>row. row ! i) A)) [0..<nphones]"

text \<open>
  \<^verbatim>\<open>x.all()\<close>: no element is zero. The two assertions of lines 143-144 compare such
  truth values: the first holds when every row sum is non-zero (\<^verbatim>\<open>True == 1.0\<close>), the
  second when "every column sum is non-zero" and "every duration is non-zero" agree.
\<close>

definition all_nonzero :: "'a::zero list \<Rightarrow> bool" where
  "all_nonzero xs = list_all (\<lambda>x. x \<noteq> 0) xs"

definition durations_to_attention_matrix :: "int list \<Rightarrow> exn + matrix" where
  "durations_to_attention_matrix durations =
     (let nphones = length durations;
          nframes = sum_list durations
      in if nframes < 0 then Inl ValueError
         else
           let A = fill_loop durations 0 0 (zeros (nat nframes) nphones)
           in if \<not> all_nonzero (sum_axis1 A) then Inl (AssertionError NoMessage)
              else if all_nonzero (sum_axis0 nphones A) \<noteq> all_nonzero durations
              then Inl (AssertionError NoMessage)
              else Inr A)"

subsection \<open>The banded matrix\<close>

text \<open>
  The row of frame \<open>x\<close> in the banded matrix of the spec: token by token, a 1 where
  the frame lies in the token's range, with \<open>x\<close> counted from the start of the first
  token of the list.
\<close>

fun band_row :: "int list \<Rightarrow> int \<Rightarrow> real list" where
  "band_row [] x = []"
| "band_row (d # ds) x = (if 0 \<le> x \<and> x < d then 1 else 0) # band_row ds (x - d)"

lemma length_band_row [simp]: "length (band_row ds x) = length ds"
  by (induction ds arbitrary: x) auto




lemma length_assign_col [simp]: "length (assign_col A s e i) = length A"
  by (simp add: assign_col_def Let_def)


lemma length_fill_loop [simp]: "length (fill_loop ds i s A) = length A"
  by (induction ds arbitrary: i s A) (auto simp: Let_def)

text \<open>What the loop does to one row: the updates of the remaining durations.\<close>

fun fill_row :: "int list \<Rightarrow> nat \<Rightarrow> int \<Rightarrow> real list \<Rightarrow> real list" where
  "fill_row [] i x row = row"
| "fill_row (d # ds) i x row =
     fill_row ds (i + 1) (x - d) (if 0 \<le> x \<and> x < d then row[i := 1] else row)"


lemma length_fill_row [simp]: "length (fill_row ds i x row) = length row"
  by (induction ds arbitrary: i x row) auto

















subsection \<open>Shape, row sums and columns of the hard guide\<close>



subsection \<open>The worked example\<close>

text \<open>
  Claim C5, as amended. For the durations \<open>[3, 0, 1, 2]\<close> the result is the 6 by 4
  matrix with a 1 in column 0 of rows 0-2, in column 2 of row 3 and in column 3 of rows 4
  and 5 (column 1 is all zero), and every row sums to 1. This is the example of the
  docstring, transposed.
\<close>

theorem hard_guide_example:
  "durations_to_attention_matrix [3, 0, 1, 2] =
     Inr [[1, 0, 0, 0], [1, 0, 0, 0], [1, 0, 0, 0], [0, 0, 1, 0], [0, 0, 0, 1], [0, 0, 0, 1]] \<and>
   map sum_list [[1, 0, 0, 0], [1, 0, 0, 0], [1, 0, 0, 0], [0, 0, 1, 0], [0, 0, 0, 1], [0, 0, 0, 1 :: real]]
     = [1, 1, 1, 1, 1, 1]"
  by code_simp

text \<open>
  Claim C5 as stated has row 3 all zero, the 1 of row 4 in column 2 and only row 5 in
  column 3. That matrix is not the result.
\<close>

theorem hard_guide_example_counterexample:
  "durations_to_attention_matrix [3, 0, 1, 2] \<noteq>
     Inr [[1, 0, 0, 0], [1, 0, 0, 0], [1, 0, 0, 0], [0, 0, 0, 0], [0, 0, 1, 0], [0, 0, 0, 1]]"
  by code_simp

section \<open>\<^verbatim>\<open>get_attention_guide\<close>: the soft attention guide\<close>

text \<open>
  The floating-point numbers of the source are real numbers here, so the theorems below
  are about the formula the source evaluates, not about its rounding. The entry written
  at \<^verbatim>\<open>W[n_pos, t_pos]\<close> (line 152); in Python the unary minus applies to the square.
\<close>

definition guide_entry :: "int \<Rightarrow> int \<Rightarrow> real \<Rightarrow> nat \<Rightarrow> nat \<Rightarrow> real" where
  "guide_entry xdim ydim g n_pos t_pos =
     1 - exp (- ((real t_pos / real_of_int ydim - real n_pos / real_of_int xdim) ^ 2)
              / (2 * g * g))"

text \<open>The inner loop \<^verbatim>\<open>for t_pos in range(ydim)\<close> and the outer loop over \<^verbatim>\<open>n_pos\<close>.\<close>

definition guide_row_loop :: "int \<Rightarrow> int \<Rightarrow> real \<Rightarrow> nat \<Rightarrow> matrix \<Rightarrow> matrix" where
  "guide_row_loop xdim ydim g n_pos W =
     fold (\<lambda>t_pos W. W[n_pos := (W ! n_pos)[t_pos := guide_entry xdim ydim g n_pos t_pos]])
       [0..<nat ydim] W"



subsection \<open>The two loops fill every entry\<close>

lemma fold_update_row:
  "n < length W \<Longrightarrow>
   fold (\<lambda>t W. W[n := (W ! n)[t := f t]]) ts W = W[n := fold (\<lambda>t row. row[t := f t]) ts (W ! n)]"
  by (induction ts arbitrary: W) simp_all

lemma length_fold_update [simp]: "length (fold (\<lambda>t row. row[t := f t]) ts row) = length row"
  by (induction ts arbitrary: row) simp_all


lemma length_guide_row_loop [simp]: "length (guide_row_loop xdim ydim g n W) = length W"
proof (cases "n < length W")
  case True
  then show ?thesis by (simp add: guide_row_loop_def fold_update_row)
next
  case False
  have "\<And>W'. length W' = length W \<Longrightarrow>
    length (fold (\<lambda>t_pos W. W[n := (W ! n)[t_pos := guide_entry xdim ydim g n t_pos]]) ts W') = length W" for ts
    by (induction ts) simp_all
  then show ?thesis by (simp add: guide_row_loop_def)
qed


lemma length_fold_rows [simp]:
  "length (fold (guide_row_loop xdim ydim g) ns W) = length W"
  by (induction ns arbitrary: W) simp_all




subsection \<open>Entries of the soft guide\<close>




section \<open>\<^verbatim>\<open>resample_timings\<close>: durations from one frame rate to another\<close>


text \<open>\<^verbatim>\<open>np.cumsum\<close>\<close>

fun cumsum_from :: "rat \<Rightarrow> rat list \<Rightarrow> rat list" where
  "cumsum_from acc [] = []"
| "cumsum_from acc (x # xs) = (acc + x) # cumsum_from (acc + x) xs"









subsection \<open>The spec's words for the conversion\<close>




subsection \<open>Properties of the steps\<close>

lemma length_cumsum_from [simp]: "length (cumsum_from a xs) = length xs"
  by (induction xs arbitrary: a) simp_all












subsection \<open>Conversion without a target total\<close>





subsection \<open>Conversion with a target total\<close>







subsection \<open>Input that is not divisible\<close>



section \<open>\<^verbatim>\<open>write_transcript\<close> and \<^verbatim>\<open>read_transcript\<close>\<close>

text \<open>
  A Python string is a list of characters; the characters are the code points below 256.
  A record of the transcript is a dictionary with the keys \<^verbatim>\<open>'phones'\<close> and
  \<^verbatim>\<open>'text'\<close> and, when durations were found, \<^verbatim>\<open>'duration'\<close>. The dictionary
  \<^verbatim>\<open>texts\<close> that \<^verbatim>\<open>write_transcript\<close> takes is the list of its items; its keys are
  distinct.
\<close>

record entry =
  phones :: "string list"
  normtext :: string
  duration :: "int list option"

subsection \<open>String operations of Python\<close>

text \<open>\<^verbatim>\<open>str.isspace\<close>, which is also \<^verbatim>\<open>\s\<close> of \<^verbatim>\<open>re\<close>, and the line boundaries of
  \<^verbatim>\<open>str.splitlines\<close>.\<close>

definition is_space :: "char \<Rightarrow> bool" where
  "is_space c = (of_char c \<in> {9, 10, 11, 12, 13, 28, 29, 30, 31, 32, 133, 160 :: nat})"

definition is_linebreak :: "char \<Rightarrow> bool" where
  "is_linebreak c = (of_char c \<in> {10, 11, 12, 13, 28, 29, 30, 133 :: nat})"

text \<open>\<^verbatim>\<open>sep.join(xs)\<close>\<close>

fun str_join :: "string \<Rightarrow> string list \<Rightarrow> string" where
  "str_join sep [] = []"
| "str_join sep [x] = x"
| "str_join sep (x # y # ys) = x @ sep @ str_join sep (y # ys)"

text \<open>\<^verbatim>\<open>str\<close> of an integer, as \<^verbatim>\<open>np.array(..., dtype='str')\<close> renders the durations.\<close>

definition digit_char :: "nat \<Rightarrow> char" where
  "digit_char d = ''0123456789'' ! d"

fun str_nat :: "nat \<Rightarrow> string" where
  "str_nat n = (if n < 10 then [digit_char n] else str_nat (n div 10) @ [digit_char (n mod 10)])"

declare str_nat.simps [simp del]

definition str_int :: "int \<Rightarrow> string" where
  "str_int i = (if i < 0 then CHR ''-'' # str_nat (nat (- i)) else str_nat (nat i))"

text \<open>
  \<^verbatim>\<open>data.splitlines(True)\<close>, which is what \<^verbatim>\<open>readlines\<close> of a \<^verbatim>\<open>codecs\<close> stream
  returns: the lines with their line ends; a carriage return followed by a line feed is one
  line end. The first argument is the line read so far.
\<close>

fun str_splitlines :: "string \<Rightarrow> string \<Rightarrow> string list" where
  "str_splitlines cur [] = (if cur = [] then [] else [cur])"
| "str_splitlines cur [c] = [cur @ [c]]"
| "str_splitlines cur (c # d # cs) =
     (if c = CHR 0x0D \<and> d = CHR 0x0A then (cur @ [c, d]) # str_splitlines [] cs
      else if is_linebreak c then (cur @ [c]) # str_splitlines [] (d # cs)
      else str_splitlines (cur @ [c]) (d # cs))"

text \<open>\<^verbatim>\<open>s.strip(chars)\<close> and \<^verbatim>\<open>s.strip()\<close>, by the test for the characters to drop.\<close>

definition str_strip :: "(char \<Rightarrow> bool) \<Rightarrow> string \<Rightarrow> string" where
  "str_strip chars s = rev (dropWhile chars (rev (dropWhile chars s)))"

text \<open>\<^verbatim>\<open>s.split(sep)\<close> for a separator of one character.\<close>

fun str_split :: "char \<Rightarrow> string \<Rightarrow> string list" where
  "str_split sep [] = [[]]"
| "str_split sep (c # cs) =
     (if c = sep then [] # str_split sep cs
      else (case str_split sep cs of f # fs \<Rightarrow> (c # f) # fs | [] \<Rightarrow> [[c]]))"

text \<open>\<^verbatim>\<open>re.split('\s+', s)\<close>: the pieces between the maximal runs of white space.\<close>

function re_split_space :: "string \<Rightarrow> string list" where
  "re_split_space [] = [[]]"
| "re_split_space (c # cs) =
     (if is_space c then [] # re_split_space (dropWhile is_space cs)
      else (case re_split_space cs of f # fs \<Rightarrow> (c # f) # fs | [] \<Rightarrow> [[c]]))"
  by pat_completeness auto
termination
  by (relation "measure length") (auto simp: less_Suc_eq_le length_dropWhile_le)

subsection \<open>Writing\<close>

text \<open>
  The loop of \<^verbatim>\<open>write_transcript\<close> over the items in the order of their keys, with the
  text written so far. With \<^verbatim>\<open>duration\<close> set, a record without durations is skipped
  (the source prints a warning).
\<close>

fun write_loop :: "bool \<Rightarrow> (string \<times> entry) list \<Rightarrow> string \<Rightarrow> string" where
  "write_loop dur [] f = f"
| "write_loop dur ((base, e) # rest) f =
     (let line = base @ ''||'' @ normtext e @ ''|'' @ str_join '' '' (phones e)
      in if dur then
           (case duration e of
              None \<Rightarrow> write_loop dur rest f
            | Some d \<Rightarrow>
                write_loop dur rest
                  (f @ (line @ ''||'' @ str_join '' '' (map str_int d)) @ [CHR 0x0A]))
         else write_loop dur rest (f @ line @ [CHR 0x0A]))"

definition write_transcript :: "(string \<times> entry) list \<Rightarrow> bool \<Rightarrow> string" where
  "write_transcript texts dur = write_loop dur (sort_key fst texts) []"

subsection \<open>Reading\<close>

text \<open>
  The second loop of \<^verbatim>\<open>read_transcript\<close> (lines 117-121). The record it stores has the
  keys \<^verbatim>\<open>'phones'\<close> and \<^verbatim>\<open>'text'\<close> only, whatever further fields the line has.
\<close>

fun read_loop :: "string list list \<Rightarrow> (string \<rightharpoonup> entry) \<Rightarrow> exn + (string \<rightharpoonup> entry)" where
  "read_loop [] transcript = Inr transcript"
| "read_loop (row # rest) transcript =
     (if \<not> 4 \<le> length row then Inl (AssertionError NoMessage)
      else
        let base = row ! 0; plaintext = row ! 1; normtext = row ! 2;
            phones = re_split_space (row ! 3)
        in read_loop rest
             (transcript(base \<mapsto> \<lparr>phones = phones, normtext = normtext, duration = None\<rparr>)))"

definition read_transcript :: "string \<Rightarrow> exn + (string \<rightharpoonup> entry)" where
  "read_transcript content =
     (let texts = str_splitlines [] content;
          texts = map (str_strip (\<lambda>c. c \<in> set [CHR 0x0A, CHR 0x0D, CHR '' '', CHR ''|''])) texts;
          texts = filter (\<lambda>t. t \<noteq> []) texts;
          texts = map (\<lambda>line. str_split CHR ''|'' (str_strip is_space line)) texts
      in case find (\<lambda>line. length line \<noteq> length (texts ! 0)) texts of
           Some line \<Rightarrow> Inl (AssertionError (Line line))
         | None \<Rightarrow> read_loop texts Map.empty)"

subsection \<open>Properties of the string operations\<close>

lemma linebreak_is_space: "is_linebreak c \<Longrightarrow> is_space c"
  by (auto simp: is_linebreak_def is_space_def)

lemma LF_linebreak: "is_linebreak (CHR 0x0A)"
  by (simp add: is_linebreak_def)

lemma CR_linebreak: "is_linebreak (CHR 0x0D)"
  by (simp add: is_linebreak_def)

lemma str_splitlines_line:
  "\<forall>c\<in>set l. \<not> is_linebreak c \<Longrightarrow>
   str_splitlines cur (l @ CHR 0x0A # rest) = (cur @ l @ [CHR 0x0A]) # str_splitlines [] rest"
proof (induction l arbitrary: cur)
  case Nil
  show ?case by (cases rest) (simp_all add: LF_linebreak)
next
  case (Cons x l)
  then have x: "\<not> is_linebreak x" and l: "\<forall>c\<in>set l. \<not> is_linebreak c" by simp_all
  from x CR_linebreak have ncr: "x \<noteq> CHR 0x0D" by auto
  obtain d cs where dc: "l @ CHR 0x0A # rest = d # cs" by (cases "l @ CHR 0x0A # rest") auto
  have "str_splitlines cur ((x # l) @ CHR 0x0A # rest) = str_splitlines cur (x # d # cs)"
    using dc by simp
  also have "\<dots> = str_splitlines (cur @ [x]) (d # cs)" using x ncr by simp
  also have "\<dots> = str_splitlines (cur @ [x]) (l @ CHR 0x0A # rest)" using dc by simp
  also have "\<dots> = ((cur @ [x]) @ l @ [CHR 0x0A]) # str_splitlines [] rest"
    by (rule Cons.IH [OF l])
  finally show ?case by simp
qed

lemma str_splitlines_lines:
  "\<forall>l\<in>set ls. \<forall>c\<in>set l. \<not> is_linebreak c \<Longrightarrow>
   str_splitlines [] (concat (map (\<lambda>l. l @ [CHR 0x0A]) ls)) = map (\<lambda>l. l @ [CHR 0x0A]) ls"
proof (induction ls)
  case Nil
  then show ?case by simp
next
  case (Cons l ls)
  then have "str_splitlines [] (l @ CHR 0x0A # concat (map (\<lambda>l. l @ [CHR 0x0A]) ls))
      = ([] @ l @ [CHR 0x0A]) # str_splitlines [] (concat (map (\<lambda>l. l @ [CHR 0x0A]) ls))"
    by (intro str_splitlines_line) simp
  with Cons show ?case by simp
qed

lemma str_strip_id:
  "s \<noteq> [] \<Longrightarrow> \<not> P (hd s) \<Longrightarrow> \<not> P (last s) \<Longrightarrow> str_strip P s = s"
proof -
  assume ne: "s \<noteq> []" and h: "\<not> P (hd s)" and l: "\<not> P (last s)"
  from ne h have a: "dropWhile P s = s" by (cases s) simp_all
  from ne have "rev s = last s # rev (butlast s)"
    by (induction s rule: rev_induct) simp_all
  moreover from l have "dropWhile P (last s # rev (butlast s)) = last s # rev (butlast s)"
    by simp
  ultimately have "dropWhile P (rev s) = rev s" by (simp only:)
  with a show ?thesis by (simp add: str_strip_def)
qed

lemma str_strip_newline:
  assumes "s \<noteq> []" "\<not> P (hd s)" "\<not> P (last s)" "P c"
  shows "str_strip P (s @ [c]) = s"
proof -
  from assms(1,2) have a: "dropWhile P (s @ [c]) = s @ [c]" by (cases s) simp_all
  from assms(1) have "rev s = last s # rev (butlast s)"
    by (induction s rule: rev_induct) simp_all
  moreover from assms(3) have "dropWhile P (last s # rev (butlast s)) = last s # rev (butlast s)"
    by simp
  ultimately have "dropWhile P (rev s) = rev s" by (simp only:)
  with a assms(4) show ?thesis by (simp add: str_strip_def)
qed

lemma str_split_nonempty: "str_split sep s \<noteq> []"
  by (induction s) (auto split: list.splits)

lemma str_split_single: "sep \<notin> set f \<Longrightarrow> str_split sep f = [f]"
  by (induction f) (auto split: list.splits)

lemma str_split_field:
  "sep \<notin> set f \<Longrightarrow> str_split sep (f @ sep # rest) = f # str_split sep rest"
  by (induction f) (auto split: list.splits)

lemma re_split_space_nonempty: "re_split_space s \<noteq> []"
  by (induction s rule: re_split_space.induct) (auto split: list.splits)

lemma re_split_space_word:
  "\<forall>c\<in>set p. \<not> is_space c \<Longrightarrow> re_split_space p = [p]"
  by (induction p) (auto split: list.splits)

lemma re_split_space_words:
  assumes "\<forall>c\<in>set p. \<not> is_space c" and "rest \<noteq> []" and "\<not> is_space (hd rest)"
    and "is_space s"
  shows "re_split_space (p @ s # rest) = p # re_split_space rest"
  using assms(1)
proof (induction p)
  case Nil
  from assms(2,3) have "dropWhile is_space rest = rest" by (cases rest) simp_all
  with assms(4) show ?case by simp
next
  case (Cons x p)
  then show ?case by (auto split: list.splits)
qed

subsection \<open>Rendered integers and joined fields\<close>

definition is_digit :: "char \<Rightarrow> bool" where
  "is_digit c = (c \<in> set ''0123456789'')"

lemma digit_char_digit: "d < 10 \<Longrightarrow> is_digit (digit_char d)"
  unfolding is_digit_def digit_char_def by (rule nth_mem) simp

lemma str_nat_digits: "str_nat n \<noteq> [] \<and> (\<forall>c\<in>set (str_nat n). is_digit c)"
proof (induction n rule: str_nat.induct)
  case (1 n)
  show ?case
  proof (cases "n < 10")
    case True
    then show ?thesis by (simp add: str_nat.simps [of n] digit_char_digit)
  next
    case False
    with 1 show ?thesis by (simp add: str_nat.simps [of n] digit_char_digit)
  qed
qed

lemma last_str_nat: "is_digit (last (str_nat n))"
  using str_nat_digits [of n] by simp

text \<open>A character of a rendered integer: a digit or the sign.\<close>

definition is_numeric :: "char \<Rightarrow> bool" where
  "is_numeric c = (is_digit c \<or> c = CHR ''-'')"

lemma str_int_numeric:
  "str_int i \<noteq> []" "\<forall>c\<in>set (str_int i). is_numeric c" "is_digit (last (str_int i))"
  using str_nat_digits [of "nat i"] str_nat_digits [of "nat (- i)"]
  by (auto simp: str_int_def is_numeric_def)

lemma numeric_plain: "is_numeric c \<Longrightarrow> c \<noteq> CHR ''|'' \<and> \<not> is_space c \<and> \<not> is_linebreak c"
  by (auto simp: is_numeric_def is_digit_def is_space_def is_linebreak_def)

lemma set_str_join: "set (str_join sep xs) \<subseteq> set sep \<union> \<Union> (set ` set xs)"
  by (induction sep xs rule: str_join.induct) auto

lemma str_join_empty: "xs \<noteq> [] \<Longrightarrow> \<forall>x\<in>set xs. x \<noteq> [] \<Longrightarrow> str_join sep xs \<noteq> []"
  by (induction sep xs rule: str_join.induct) auto

lemma hd_str_join: "xs \<noteq> [] \<Longrightarrow> \<forall>x\<in>set xs. x \<noteq> [] \<Longrightarrow> hd (str_join sep xs) = hd (hd xs)"
  by (induction sep xs rule: str_join.induct) auto

lemma last_str_join:
  "xs \<noteq> [] \<Longrightarrow> \<forall>x\<in>set xs. x \<noteq> [] \<Longrightarrow> last (str_join sep xs) = last (last xs)"
proof (induction sep xs rule: str_join.induct)
  case (1 sep)
  then show ?case by simp
next
  case (2 sep x)
  then show ?case by simp
next
  case (3 sep x y ys)
  then have "str_join sep (y # ys) \<noteq> []" by (intro str_join_empty) simp_all
  with 3 show ?case by simp
qed

lemma re_split_space_join:
  assumes "ps \<noteq> []" and "\<forall>p\<in>set ps. p \<noteq> [] \<and> (\<forall>c\<in>set p. \<not> is_space c)"
  shows "re_split_space (str_join '' '' ps) = ps"
  using assms
proof (induction "'' ''" ps rule: str_join.induct)
  case 1
  then show ?case by simp
next
  case (2 x)
  then show ?case by (simp add: re_split_space_word)
next
  case (3 x y ys)
  let ?rest = "str_join '' '' (y # ys)"
  from 3 have ne: "?rest \<noteq> []" by (intro str_join_empty) simp_all
  from 3 have "hd ?rest = hd (hd (y # ys))" by (intro hd_str_join) simp_all
  with 3 have h: "\<not> is_space (hd ?rest)" by (cases y) simp_all
  from 3 have x: "\<forall>c\<in>set x. \<not> is_space c" by simp
  have sp: "is_space CHR '' ''" by (simp add: is_space_def)
  have "re_split_space (x @ CHR '' '' # ?rest) = x # re_split_space ?rest"
    by (rule re_split_space_words [OF x ne h sp])
  with 3 show ?case by simp
qed


subsection \<open>Records that survive the file format\<close>

text \<open>
  The file format has no quoting, so a record comes back only when its strings stay clear
  of the delimiters. A string is clean when it has no pipe and no line boundary. An item
  of \<^verbatim>\<open>texts\<close> is well formed when its key is not empty, is clean and does not start
  with white space; its text is clean; it has at least one phone, and every phone is not
  empty and has no pipe and no white space; and it has a duration list that is not empty.
  \<open>fields_of\<close> are the six fields of the line written for such an item, \<open>line_of\<close> is
  the line without its line end.
\<close>

definition clean :: "string \<Rightarrow> bool" where
  "clean s = (\<forall>c\<in>set s. c \<noteq> CHR ''|'' \<and> \<not> is_linebreak c)"

definition wellformed :: "string \<times> entry \<Rightarrow> bool" where
  "wellformed item =
     (case item of (base, e) \<Rightarrow>
        base \<noteq> [] \<and> clean base \<and> \<not> is_space (hd base) \<and> clean (normtext e) \<and>
        phones e \<noteq> [] \<and>
        (\<forall>p\<in>set (phones e). p \<noteq> [] \<and> (\<forall>c\<in>set p. c \<noteq> CHR ''|'' \<and> \<not> is_space c)) \<and>
        (\<exists>d. duration e = Some d \<and> d \<noteq> []))"

definition fields_of :: "string \<times> entry \<Rightarrow> string list" where
  "fields_of item =
     (case item of (base, e) \<Rightarrow>
        [base, [], normtext e, str_join '' '' (phones e), [],
         str_join '' '' (map str_int (the (duration e)))])"

definition line_of :: "string \<times> entry \<Rightarrow> string" where
  "line_of item = str_join ''|'' (fields_of item)"

lemma line_of_eq:
  "line_of (base, e) = base @ ''||'' @ normtext e @ ''|'' @ str_join '' '' (phones e) @ ''||'' @
     str_join '' '' (map str_int (the (duration e)))"
  by (simp add: line_of_def fields_of_def)

lemma write_loop_lines:
  "\<forall>item\<in>set items. wellformed item \<Longrightarrow>
   write_loop True items f = f @ concat (map (\<lambda>item. line_of item @ [CHR 0x0A]) items)"
proof (induction items arbitrary: f)
  case Nil
  then show ?case by simp
next
  case (Cons item items)
  obtain base e where item: "item = (base, e)" by (cases item) auto
  from Cons.prems item obtain d where d: "duration e = Some d"
    by (auto simp: wellformed_def)
  from Cons.prems have "\<forall>item\<in>set items. wellformed item" by simp
  from Cons.IH [OF this] item d show ?case
    by (simp add: line_of_eq Let_def)
qed

lemma durations_field:
  assumes "d \<noteq> []"
  shows "str_join '' '' (map str_int d) \<noteq> []"
    and "\<forall>c\<in>set (str_join '' '' (map str_int d)). c \<noteq> CHR ''|'' \<and> \<not> is_linebreak c"
    and "is_digit (last (str_join '' '' (map str_int d)))"
proof -
  let ?xs = "map str_int d"
  from assms have ne: "?xs \<noteq> []" by simp
  have each: "\<forall>x\<in>set ?xs. x \<noteq> []" by (auto simp: str_int_numeric)
  from ne each show "str_join '' '' ?xs \<noteq> []" by (rule str_join_empty)
  show "\<forall>c\<in>set (str_join '' '' ?xs). c \<noteq> CHR ''|'' \<and> \<not> is_linebreak c"
  proof
    fix c assume "c \<in> set (str_join '' '' ?xs)"
    with set_str_join [of "'' ''" ?xs] have "c = CHR '' '' \<or> (\<exists>i\<in>set d. c \<in> set (str_int i))"
      by auto
    then show "c \<noteq> CHR ''|'' \<and> \<not> is_linebreak c"
    proof
      assume "c = CHR '' ''"
      then show ?thesis by (simp add: is_linebreak_def)
    next
      assume "\<exists>i\<in>set d. c \<in> set (str_int i)"
      then have "is_numeric c" using str_int_numeric(2) by blast
      then show ?thesis by (simp add: numeric_plain)
    qed
  qed
  from ne each have "last (str_join '' '' ?xs) = last (last ?xs)" by (rule last_str_join)
  also from assms have "last ?xs = str_int (last d)" by (simp add: last_map)
  finally show "is_digit (last (str_join '' '' ?xs))" by (simp add: str_int_numeric)
qed

lemma phones_field:
  assumes "\<forall>p\<in>set ps. p \<noteq> [] \<and> (\<forall>c\<in>set p. c \<noteq> CHR ''|'' \<and> \<not> is_space c)"
  shows "\<forall>c\<in>set (str_join '' '' ps). c \<noteq> CHR ''|'' \<and> \<not> is_linebreak c"
proof
  fix c assume "c \<in> set (str_join '' '' ps)"
  with set_str_join [of "'' ''" ps] have "c = CHR '' '' \<or> (\<exists>p\<in>set ps. c \<in> set p)"
    by auto
  then show "c \<noteq> CHR ''|'' \<and> \<not> is_linebreak c"
  proof
    assume "c = CHR '' ''"
    then show ?thesis by (simp add: is_linebreak_def)
  next
    assume "\<exists>p\<in>set ps. c \<in> set p"
    with assms have "c \<noteq> CHR ''|'' \<and> \<not> is_space c" by blast
    then show ?thesis by (auto dest: linebreak_is_space)
  qed
qed

lemma digit_plain: "is_digit c \<Longrightarrow> \<not> is_space c \<and> c \<notin> set [CHR 0x0A, CHR 0x0D, CHR '' '', CHR ''|'']"
  by (auto simp: is_digit_def is_space_def)

lemma strip_set_space: "c \<in> set [CHR 0x0A, CHR 0x0D, CHR '' '', CHR ''|''] \<Longrightarrow> is_space c \<or> c = CHR ''|''"
  by (auto simp: is_space_def)



lemma line_of_props:
  assumes "wellformed (base, e)"
  shows "\<forall>c\<in>set (line_of (base, e)). \<not> is_linebreak c"
    and "line_of (base, e) \<noteq> []"
    and "hd (line_of (base, e)) = hd base"
    and "is_digit (last (line_of (base, e)))"
    and "str_split CHR ''|'' (line_of (base, e)) = fields_of (base, e)"
proof -
  from assms obtain d where d: "duration e = Some d" "d \<noteq> []"
    by (auto simp: wellformed_def)
  let ?ph = "str_join '' '' (phones e)"
  let ?du = "str_join '' '' (map str_int d)"
  from assms have base: "base \<noteq> []" "\<forall>c\<in>set base. c \<noteq> CHR ''|'' \<and> \<not> is_linebreak c"
    and nt: "\<forall>c\<in>set (normtext e). c \<noteq> CHR ''|'' \<and> \<not> is_linebreak c"
    by (simp_all add: wellformed_def clean_def)
  from assms have "\<forall>p\<in>set (phones e). p \<noteq> [] \<and> (\<forall>c\<in>set p. c \<noteq> CHR ''|'' \<and> \<not> is_space c)"
    by (simp add: wellformed_def)
  then have ph: "\<forall>c\<in>set ?ph. c \<noteq> CHR ''|'' \<and> \<not> is_linebreak c" by (rule phones_field)
  note du = durations_field [OF d(2)]
  have line: "line_of (base, e) = base @ ''||'' @ normtext e @ ''|'' @ ?ph @ ''||'' @ ?du"
    using d by (simp add: line_of_eq)
  have bar: "\<not> is_linebreak CHR ''|''" by (simp add: is_linebreak_def)
  show "\<forall>c\<in>set (line_of (base, e)). \<not> is_linebreak c"
  proof
    fix c assume "c \<in> set (line_of (base, e))"
    then have "c \<in> set base \<or> c = CHR ''|'' \<or> c \<in> set (normtext e) \<or> c \<in> set ?ph \<or> c \<in> set ?du"
      unfolding line by auto
    then show "\<not> is_linebreak c"
    proof (elim disjE)
      assume "c \<in> set base"
      with base(2) show ?thesis by simp
    next
      assume "c = CHR ''|''"
      with bar show ?thesis by simp
    next
      assume "c \<in> set (normtext e)"
      with nt show ?thesis by simp
    next
      assume "c \<in> set ?ph"
      with ph show ?thesis by simp
    next
      assume "c \<in> set ?du"
      with du(2) show ?thesis by simp
    qed
  qed
  from base show "line_of (base, e) \<noteq> []" by (simp add: line)
  from base show "hd (line_of (base, e)) = hd base" by (simp add: line)
  from du(1) have "last (line_of (base, e)) = last ?du" by (simp add: line)
  with du(3) show "is_digit (last (line_of (base, e)))" by simp
  have b1: "CHR ''|'' \<notin> set base" using base by auto
  have b2: "CHR ''|'' \<notin> set (normtext e)" using nt by auto
  have b3: "CHR ''|'' \<notin> set ?ph" using ph by auto
  have b4: "CHR ''|'' \<notin> set ?du" using du(2) by auto
  have "str_split CHR ''|'' (line_of (base, e))
      = str_split CHR ''|'' (base @ CHR ''|'' # CHR ''|'' # normtext e @ CHR ''|'' # ?ph @ CHR ''|'' # CHR ''|'' # ?du)"
    by (simp add: line)
  also have "\<dots> = base # str_split CHR ''|'' (CHR ''|'' # normtext e @ CHR ''|'' # ?ph @ CHR ''|'' # CHR ''|'' # ?du)"
    by (rule str_split_field [OF b1])
  also have "str_split CHR ''|'' (CHR ''|'' # normtext e @ CHR ''|'' # ?ph @ CHR ''|'' # CHR ''|'' # ?du)
      = [] # str_split CHR ''|'' (normtext e @ CHR ''|'' # ?ph @ CHR ''|'' # CHR ''|'' # ?du)"
    by simp
  also have "str_split CHR ''|'' (normtext e @ CHR ''|'' # ?ph @ CHR ''|'' # CHR ''|'' # ?du)
      = normtext e # str_split CHR ''|'' (?ph @ CHR ''|'' # CHR ''|'' # ?du)"
    by (rule str_split_field [OF b2])
  also have "str_split CHR ''|'' (?ph @ CHR ''|'' # CHR ''|'' # ?du)
      = ?ph # str_split CHR ''|'' (CHR ''|'' # ?du)"
    by (rule str_split_field [OF b3])
  also have "str_split CHR ''|'' (CHR ''|'' # ?du) = [] # str_split CHR ''|'' ?du"
    by simp
  also have "str_split CHR ''|'' ?du = [?du]" by (rule str_split_single [OF b4])
  finally show "str_split CHR ''|'' (line_of (base, e)) = fields_of (base, e)"
    using d by (simp add: fields_of_def)
qed


lemma line_fields:
  assumes "wellformed item"
  shows "str_strip (\<lambda>c. c \<in> set [CHR 0x0A, CHR 0x0D, CHR '' '', CHR ''|'']) (line_of item @ [CHR 0x0A])
      = line_of item"
    and "str_split CHR ''|'' (str_strip is_space (line_of item)) = fields_of item"
proof -
  obtain base e where item: "item = (base, e)" by (cases item) auto
  note p = line_of_props [OF assms [unfolded item]]
  from assms item have hb: "\<not> is_space (hd base)" "hd base \<noteq> CHR ''|''" "base \<noteq> []"
    by (auto simp: wellformed_def clean_def)
  let ?P = "\<lambda>c. c \<in> set [CHR 0x0A, CHR 0x0D, CHR '' '', CHR ''|'']"
  from hb p(3) have h1: "\<not> ?P (hd (line_of (base, e)))"
    using strip_set_space [of "hd base"] by auto
  from p(4) have l1: "\<not> ?P (last (line_of (base, e)))" and l2: "\<not> is_space (last (line_of (base, e)))"
    using digit_plain by blast+
  have nl: "?P (CHR 0x0A)" by simp
  from str_strip_newline [of "line_of (base, e)" ?P, OF p(2) h1 l1 nl] item
  show "str_strip ?P (line_of item @ [CHR 0x0A]) = line_of item" by simp
  from hb p(3) have h2: "\<not> is_space (hd (line_of (base, e)))" by simp
  from str_strip_id [of "line_of (base, e)" is_space, OF p(2) h2 l2] p(5) item
  show "str_split CHR ''|'' (str_strip is_space (line_of item)) = fields_of item" by simp
qed

lemma read_loop_fields:
  "read_loop (map fields_of items) T =
     Inr (fold (\<lambda>item T. T(fst item \<mapsto>
            \<lparr>phones = re_split_space (str_join '' '' (phones (snd item))),
             normtext = normtext (snd item), duration = None\<rparr>)) items T)"
  by (induction items arbitrary: T) (simp_all add: fields_of_def Let_def split: prod.splits)


subsection \<open>Reading back what was written\<close>

lemma read_lines:
  assumes wf: "\<forall>item\<in>set items. wellformed item"
  shows "read_transcript (concat (map (\<lambda>item. line_of item @ [CHR 0x0A]) items))
    = read_loop (map fields_of items) Map.empty"
proof -
  let ?P = "\<lambda>c. c \<in> set [CHR 0x0A, CHR 0x0D, CHR '' '', CHR ''|'']"
  let ?content = "concat (map (\<lambda>item. line_of item @ [CHR 0x0A]) items)"
  have nolb: "\<forall>l\<in>set (map line_of items). \<forall>c\<in>set l. \<not> is_linebreak c"
    using wf line_of_props(1) by auto
  have "?content = concat (map (\<lambda>l. l @ [CHR 0x0A]) (map line_of items))"
    by (simp add: comp_def)
  then have s1: "str_splitlines [] ?content = map (\<lambda>l. l @ [CHR 0x0A]) (map line_of items)"
    using str_splitlines_lines [OF nolb] by simp
  have "map (str_strip ?P) (map (\<lambda>l. l @ [CHR 0x0A]) (map line_of items))
      = map (\<lambda>item. str_strip ?P (line_of item @ [CHR 0x0A])) items"
    by (simp only: map_map comp_def)
  also have "\<dots> = map line_of items"
  proof (rule map_cong [OF refl])
    fix item assume "item \<in> set items"
    with wf have "wellformed item" by simp
    then show "str_strip ?P (line_of item @ [CHR 0x0A]) = line_of item"
      by (rule line_fields(1))
  qed
  finally have s2: "map (str_strip ?P) (map (\<lambda>l. l @ [CHR 0x0A]) (map line_of items))
      = map line_of items" .
  have ne: "\<forall>item\<in>set items. line_of item \<noteq> []"
    using wf line_of_props(2) by auto
  then have s3: "filter (\<lambda>t. t \<noteq> []) (map line_of items) = map line_of items"
    by (simp add: filter_id_conv)
  have "map (\<lambda>line. str_split CHR ''|'' (str_strip is_space line)) (map line_of items)
      = map (\<lambda>item. str_split CHR ''|'' (str_strip is_space (line_of item))) items"
    by (simp only: map_map comp_def)
  also have "\<dots> = map fields_of items"
  proof (rule map_cong [OF refl])
    fix item assume "item \<in> set items"
    with wf have "wellformed item" by simp
    then show "str_split CHR ''|'' (str_strip is_space (line_of item)) = fields_of item"
      by (rule line_fields(2))
  qed
  finally have s4: "map (\<lambda>line. str_split CHR ''|'' (str_strip is_space line)) (map line_of items)
      = map fields_of items" .
  have len: "length (fields_of item) = 6" for item
    by (simp add: fields_of_def split: prod.splits)
  have s5: "find (\<lambda>line. length line \<noteq> length (map fields_of items ! 0)) (map fields_of items) = None"
  proof (cases items)
    case Nil
    then show ?thesis by simp
  next
    case (Cons item rest)
    then show ?thesis by (simp add: find_None_iff len)
  qed
  show ?thesis
    unfolding read_transcript_def Let_def s1 s2 s3 s4 s5 by simp
qed


lemma fold_read_entries:
  assumes d: "distinct (map fst texts)"
    and sub: "set items \<subseteq> set texts"
    and wf: "\<forall>item\<in>set items. wellformed item"
  shows "fold (\<lambda>item T. T(fst item \<mapsto>
            \<lparr>phones = re_split_space (str_join '' '' (phones (snd item))),
             normtext = normtext (snd item), duration = None\<rparr>)) items T
    = (\<lambda>k. if k \<in> fst ` set items
            then map_option (\<lambda>e. e\<lparr>duration := None\<rparr>) (map_of texts k) else T k)"
  using sub wf
proof (induction items arbitrary: T)
  case Nil
  then show ?case by simp
next
  case (Cons item items)
  obtain base e where item: "item = (base, e)" by (cases item) auto
  from Cons.prems item have mem: "(base, e) \<in> set texts" and w: "wellformed (base, e)"
    by simp_all
  from d mem have look: "map_of texts base = Some e" by simp
  from w have "phones e \<noteq> []"
    and "\<forall>p\<in>set (phones e). p \<noteq> [] \<and> (\<forall>c\<in>set p. \<not> is_space c)"
    by (simp_all add: wellformed_def)
  then have ph: "re_split_space (str_join '' '' (phones e)) = phones e"
    by (rule re_split_space_join)
  have v: "\<lparr>phones = phones e, normtext = normtext e, duration = None\<rparr> = e\<lparr>duration := None\<rparr>"
    by (cases e) simp
  let ?F = "\<lambda>item T. T(fst item \<mapsto>
            \<lparr>phones = re_split_space (str_join '' '' (phones (snd item))),
             normtext = normtext (snd item), duration = None\<rparr>)"
  have step: "fold ?F (item # items) T = fold ?F items (T(base \<mapsto> e\<lparr>duration := None\<rparr>))"
    by (simp add: item ph v)
  from Cons.prems have "set items \<subseteq> set texts" "\<forall>item\<in>set items. wellformed item"
    by simp_all
  note ih = Cons.IH [OF this, of "T(base \<mapsto> e\<lparr>duration := None\<rparr>)"]
  show ?case
  proof (rule ext)
    fix k
    have "fold ?F (item # items) T k =
        (if k \<in> fst ` set items
         then map_option (\<lambda>e. e\<lparr>duration := None\<rparr>) (map_of texts k)
         else (T(base \<mapsto> e\<lparr>duration := None\<rparr>)) k)"
      by (simp only: step ih)
    also have "\<dots> = (if k \<in> fst ` set (item # items)
         then map_option (\<lambda>e. e\<lparr>duration := None\<rparr>) (map_of texts k) else T k)"
      using look by (simp add: item)
    finally show "fold ?F (item # items) T k =
        (if k \<in> fst ` set (item # items)
         then map_option (\<lambda>e. e\<lparr>duration := None\<rparr>) (map_of texts k) else T k)" .
  qed
qed

text \<open>
  Claim C8, as amended. For every dictionary of well-formed records, each with a
  duration list that is not empty, reading back the text that \<^verbatim>\<open>write_transcript\<close>
  produces with \<^verbatim>\<open>duration=True\<close> gives a dictionary with the same keys in which
  every record has the phone list and the text of the record written, and no duration:
  \<^verbatim>\<open>read_transcript\<close> reads the first four fields of a line only.
\<close>

theorem transcript_round_trip:
  assumes "distinct (map fst texts)" and "\<forall>item\<in>set texts. wellformed item"
  shows "read_transcript (write_transcript texts True) =
     Inr (map_of (map (\<lambda>(base, e). (base, e\<lparr>duration := None\<rparr>)) texts))"
proof -
  let ?items = "sort_key fst texts"
  have set: "set ?items = set texts" by simp
  with assms(2) have wf: "\<forall>item\<in>set ?items. wellformed item" by simp
  have "write_transcript texts True = concat (map (\<lambda>item. line_of item @ [CHR 0x0A]) ?items)"
    using write_loop_lines [OF wf, of "[]"] by (simp add: write_transcript_def)
  then have "read_transcript (write_transcript texts True)
      = read_loop (map fields_of ?items) Map.empty"
    by (simp only: read_lines [OF wf])
  also have "\<dots> = Inr (\<lambda>k. if k \<in> fst ` set ?items
            then map_option (\<lambda>e. e\<lparr>duration := None\<rparr>) (map_of texts k) else None)"
    using fold_read_entries [OF assms(1) _ wf, of Map.empty]
    by (simp only: read_loop_fields set subset_refl)
  also have "(\<lambda>k. if k \<in> fst ` set ?items
            then map_option (\<lambda>e. e\<lparr>duration := None\<rparr>) (map_of texts k) else None)
      = map_of (map (\<lambda>(base, e). (base, e\<lparr>duration := None\<rparr>)) texts)"
  proof (rule ext)
    fix k
    show "(if k \<in> fst ` set ?items
            then map_option (\<lambda>e. e\<lparr>duration := None\<rparr>) (map_of texts k) else None)
        = map_of (map (\<lambda>(base, e). (base, e\<lparr>duration := None\<rparr>)) texts) k"
      by (simp add: map_of_map map_of_eq_None_iff)
  qed
  finally show ?thesis .
qed

theorem transcript_round_trip_witness:
  "read_transcript (write_transcript
      [(''b2'', \<lparr>phones = [''<s>'', ''k'', ''a''], normtext = ''hi there'', duration = Some [10, 0, 25]\<rparr>),
       (''a1'', \<lparr>phones = [''p''], normtext = ''x'', duration = Some [7]\<rparr>)] True) =
   Inr (map_of (map (\<lambda>(base, e). (base, e\<lparr>duration := None\<rparr>))
      [(''b2'', \<lparr>phones = [''<s>'', ''k'', ''a''], normtext = ''hi there'', duration = Some [10, 0, 25]\<rparr>),
       (''a1'', \<lparr>phones = [''p''], normtext = ''x'', duration = Some [7]\<rparr>)]))"
  by (rule transcript_round_trip)
    (simp_all add: wellformed_def clean_def is_space_def is_linebreak_def)

text \<open>
  Claim C8 as stated has the duration list read back. The record that
  \<^verbatim>\<open>read_transcript\<close> returns for a line with durations has none.
\<close>

theorem durations_not_read_back_counterexample:
  "map_sum id (\<lambda>T. T ''a'')
     (read_transcript (write_transcript
        [(''a'', \<lparr>phones = [''p''], normtext = ''t'', duration = Some [1]\<rparr>)] True))
   = Inr (Some \<lparr>phones = [''p''], normtext = ''t'', duration = None\<rparr>)"
  by code_simp

end
